theory Spec2Isabelle
  imports Main "HOL-Library.Word" "HOL-Library.Multiset"
begin

section \<open>Strings of the page script\<close>

text \<open>
  A JavaScript string is a sequence of UTF-16 code units; \<open>length\<close>, \<open>slice\<close>,
  \<open>lastIndexOf\<close> and \<open>trim\<close> all count and compare code units.
\<close>

type_synonym jschar = "16 word"
type_synonym jsstring = "jschar list"

text \<open>An ASCII literal of the source as a code-unit sequence.\<close>

definition asc :: "string \<Rightarrow> jsstring" where
  "asc s = map (\<lambda>c. of_nat (of_char c)) s"

text \<open>
  \<open>String.prototype.trim\<close> removes WhiteSpace and LineTerminator code points at both
  ends: TAB, LF, VT, FF, CR, SP, NBSP, the other space separators of the Basic
  Multilingual Plane, LS, PS and the byte-order mark.
\<close>

definition is_ws :: "jschar \<Rightarrow> bool" where
  "is_ws c \<longleftrightarrow>
     c = 0x09 \<or> c = 0x0A \<or> c = 0x0B \<or> c = 0x0C \<or> c = 0x0D \<or> c = 0x20 \<or> c = 0xA0 \<or>
     c = 0x1680 \<or> (0x2000 \<le> c \<and> c \<le> 0x200A) \<or> c = 0x2028 \<or> c = 0x2029 \<or>
     c = 0x202F \<or> c = 0x205F \<or> c = 0x3000 \<or> c = 0xFEFF"

definition trim :: "jsstring \<Rightarrow> jsstring" where
  "trim s = rev (dropWhile is_ws (rev (dropWhile is_ws s)))"

text \<open>\<open>s.replace(/\r\n/g, "\n")\<close>: every CR LF pair, scanning from the left, becomes LF.\<close>

fun replace_crlf :: "jsstring \<Rightarrow> jsstring" where
  "replace_crlf (a # b # cs) =
     (if a = 0x0D \<and> b = 0x0A then 0x0A # replace_crlf cs else a # replace_crlf (b # cs))"
| "replace_crlf cs = cs"

text \<open>
  \<open>s.slice(start, end)\<close>: a negative index counts from the end of the string, both
  indices are clamped to \<open>0..length\<close>, and an empty span gives the empty string.
\<close>

definition rel_index :: "int \<Rightarrow> int \<Rightarrow> int" where
  "rel_index n k = (if k < 0 then max (n + k) 0 else min k n)"

definition js_slice :: "'a list \<Rightarrow> int \<Rightarrow> int \<Rightarrow> 'a list" where
  "js_slice s start end =
     (let n = int (length s); from = rel_index n start; to = rel_index n end
      in take (nat (to - from)) (drop (nat from) s))"

text \<open>
  \<open>s.lastIndexOf(pat)\<close>: the largest index at which \<open>pat\<close> occurs in \<open>s\<close>, or \<open>-1\<close>
  when it does not occur.
\<close>

definition occurs_at :: "jsstring \<Rightarrow> jsstring \<Rightarrow> nat \<Rightarrow> bool" where
  "occurs_at s pat k \<longleftrightarrow> take (length pat) (drop k s) = pat \<and> k + length pat \<le> length s"

definition lastIndexOf :: "jsstring \<Rightarrow> jsstring \<Rightarrow> int" where
  "lastIndexOf s pat =
     (case filter (occurs_at s pat) (rev [0..<Suc (length s)]) of
        [] \<Rightarrow> - 1
      | k # _ \<Rightarrow> int k)"

section \<open>The chunker\<close>

text \<open>
  \<open>app.js\<close> holds two revisions of the script, one after the other. The model follows
  the later one (the second half of the file); where the earlier one differs, the text
  says so.

  \<open>chunkText(text, maxChars)\<close>. \<open>maxChars\<close> is the integer that \<open>parseInt\<close> returned
  (\<open>NaN\<close>, for a chunk size that is not a number, is not covered); it may be zero or
  negative, and then \<open>slice\<close> sees negative indices. The loop has no bound of its own, so
  it is a partial function: \<open>None\<close> is a call that never returns. The earlier revision
  pushes every trimmed slice and drops the empty ones at the end, which gives the same
  list.
\<close>

definition lastBreak :: "jsstring \<Rightarrow> int" where
  "lastBreak window =
     max (max (max (lastIndexOf window (asc ''. '')) (lastIndexOf window (asc ''? '')))
              (lastIndexOf window (asc ''! '')))
         (lastIndexOf window [0x0A])"

text \<open>
  The value of \<open>end\<close> when the loop body reaches \<open>clean.slice(i, end).trim()\<close>;
  \<open>window\<close> is the source's local \<open>slice\<close>.
\<close>

definition chunk_end :: "jsstring \<Rightarrow> int \<Rightarrow> int \<Rightarrow> int" where
  "chunk_end clean maxChars i =
     (let end = min (i + maxChars) (int (length clean));
          window = js_slice clean i end
      in if end < int (length clean) \<and> lastBreak window > 200
         then i + lastBreak window + 1 else end)"

partial_function (option) chunk_loop ::
  "jsstring \<Rightarrow> int \<Rightarrow> int \<Rightarrow> jsstring list \<Rightarrow> jsstring list option" where
  "chunk_loop clean maxChars i chunks =
     (if i < int (length clean) then
        let end = chunk_end clean maxChars i;
            part = trim (js_slice clean i end)
        in chunk_loop clean maxChars end (if part \<noteq> [] then chunks @ [part] else chunks)
      else Some chunks)"

declare chunk_loop.simps [code]

definition chunkText :: "jsstring \<Rightarrow> int \<Rightarrow> jsstring list option" where
  "chunkText text maxChars =
     (let clean = trim (replace_crlf text)
      in if clean = [] then Some [] else chunk_loop clean maxChars 0 [])"

section \<open>The narration controller\<close>

text \<open>
  The module-level variables of \<open>app.js\<close> (\<open>queue\<close>, \<open>currentIndex\<close>, \<open>isPlaying\<close>), the
  two text nodes the script writes (\<open>els.statusText\<close>, \<open>els.progressText\<close>; the page is
  taken to contain both, so the guards \<open>if (els.statusText)\<close> and \<open>if (!els.progressText)\<close>
  always pass), and the part of the browser the script talks to: the speech engine
  \<open>window.speechSynthesis\<close> with its utterance queue and its \<open>speaking\<close> and \<open>paused\<close>
  flags, and the pending \<open>setTimeout(speakNext, _)\<close> callbacks. \<open>spoken\<close> is the log of every
  text handed to \<open>speechSynthesis.speak\<close>, in order; the script never reads it.

  The status line is one of a fixed set of literals:
  \<open>"Idle"\<close>, \<open>"Queued"\<close>, \<open>"Playing"\<close>, \<open>"Paused"\<close>, \<open>"Stopped"\<close>, \<open>"Done"\<close>,
  \<open>"TTS error ... skipping chunk"\<close> and \<open>"Nothing to play ..."\<close>. The progress line
  \<open>`${shown} / ${queue.length}`\<close> is kept as the pair of the two numbers.
\<close>

datatype status =
  Idle | Queued | Playing | Paused | Stopped | Done | TtsErrorSkippingChunk | NothingToPlay

record player =
  queue :: "jsstring list"
  currentIndex :: nat
  isPlaying :: bool
  statusText :: status
  progressText :: "nat \<times> nat"
  utterances :: "jsstring list"
  speaking :: bool
  paused :: bool
  timers :: nat
  spoken :: "jsstring list"

text \<open>The state when the script has finished loading: \<open>setStatus("Idle"); setProgress()\<close>.\<close>

definition init :: player where
  "init = \<lparr> queue = [], currentIndex = 0, isPlaying = False, statusText = Idle,
            progressText = (0, 0), utterances = [], speaking = False, paused = False,
            timers = 0, spoken = [] \<rparr>"

definition setStatus :: "status \<Rightarrow> player \<Rightarrow> player" where
  "setStatus msg st = st\<lparr>statusText := msg\<rparr>"

definition setProgress :: "player \<Rightarrow> player" where
  "setProgress st =
     (let shown = min (currentIndex st) (length (queue st))
      in st\<lparr>progressText := (shown, length (queue st))\<rparr>)"

text \<open>
  The engine, as the Web Speech API describes it: \<open>speak\<close> appends the utterance to the
  engine's queue; \<open>cancel\<close> removes every utterance and stops the one being spoken, and
  leaves the paused flag as it is; \<open>pause\<close> sets the paused flag. An utterance carries its
  text; the voice and the rate the script attaches to it are not read by anything below.
\<close>

definition engine_speak :: "jsstring \<Rightarrow> player \<Rightarrow> player" where
  "engine_speak u st = st\<lparr>utterances := utterances st @ [u], spoken := spoken st @ [u]\<rparr>"

definition engine_cancel :: "player \<Rightarrow> player" where
  "engine_cancel st = st\<lparr>utterances := [], speaking := False\<rparr>"

definition engine_pause :: "player \<Rightarrow> player" where
  "engine_pause st = st\<lparr>paused := True\<rparr>"

definition stopAll :: "player \<Rightarrow> player" where
  "stopAll st =
     setProgress (setStatus Stopped
       ((engine_cancel st)\<lparr>isPlaying := False, queue := [], currentIndex := 0\<rparr>))"

definition speakNext :: "player \<Rightarrow> player" where
  "speakNext st =
     (if \<not> isPlaying st then st
      else if paused st then st
      else if currentIndex st \<ge> length (queue st)
        then setProgress (setStatus Done (st\<lparr>isPlaying := False\<rparr>))
      else engine_speak (queue st ! currentIndex st) st)"

text \<open>
  The three callbacks \<open>speakNext\<close> attaches to each utterance. \<open>console.error\<close> in
  \<open>onerror\<close> has no effect on the state. (The earlier revision of \<open>speakNext\<close> has no
  test of the engine's paused flag.)
\<close>

definition utter_onstart :: "player \<Rightarrow> player" where
  "utter_onstart st = setProgress (setStatus Playing st)"

definition utter_onend :: "player \<Rightarrow> player" where
  "utter_onend st =
     (let st1 = setProgress (st\<lparr>currentIndex := currentIndex st + 1\<rparr>)
      in st1\<lparr>timers := Suc (timers st1)\<rparr>)"

definition utter_onerror :: "player \<Rightarrow> player" where
  "utter_onerror st =
     (let st1 = setStatus TtsErrorSkippingChunk (st\<lparr>currentIndex := currentIndex st + 1\<rparr>)
      in st1\<lparr>timers := Suc (timers st1)\<rparr>)"

text \<open>
  \<open>playFromStart\<close> reads the text area and the chunk size; both are arguments here.
  When \<open>chunkText\<close> does not return, neither does \<open>playFromStart\<close>. (The earlier
  revision starts with \<open>stopAll()\<close> instead of \<open>cancel()\<close>.) \<open>pause\<close> tests
  \<open>speaking && !paused\<close>; the earlier revision tests \<open>speaking\<close> only.
\<close>

definition playFromStart :: "jsstring \<Rightarrow> int \<Rightarrow> player \<Rightarrow> player option" where
  "playFromStart text maxChars st =
     (case chunkText text maxChars of
        None \<Rightarrow> None
      | Some chunks \<Rightarrow>
          (let st1 = (engine_cancel st)\<lparr>queue := chunks, currentIndex := 0\<rparr>
           in if length chunks = 0
              then Some (setProgress (setStatus NothingToPlay (st1\<lparr>isPlaying := False\<rparr>)))
              else Some (speakNext (setProgress (setStatus Queued (st1\<lparr>isPlaying := True\<rparr>))))))"

definition pause :: "player \<Rightarrow> player" where
  "pause st =
     (if speaking st \<and> \<not> paused st then setStatus Paused (engine_pause st) else st)"

text \<open>
  What can happen to the page, one event at a time. The engine resolves the utterance
  at the head of its queue: it reports the start of speech (\<open>onstart\<close>), or ends the
  request with \<open>onend\<close> or \<open>onerror\<close>, which takes the utterance out of the queue. A pending
  timer fires \<open>speakNext\<close>. The user presses Play, Stop or Pause. \<open>fire\<close> is \<open>None\<close> for an
  event that cannot happen in the state (no utterance to resolve, no timer pending), and
  for a Play that never returns.
\<close>

datatype event = OnStart | OnEnd | OnError | Tick | Play jsstring int | Stop | Pause

fun fire :: "event \<Rightarrow> player \<Rightarrow> player option" where
  "fire OnStart st =
     (if utterances st = [] then None else Some (utter_onstart (st\<lparr>speaking := True\<rparr>)))"
| "fire OnEnd st =
     (if utterances st = [] then None
      else Some (utter_onend (st\<lparr>utterances := tl (utterances st), speaking := False\<rparr>)))"
| "fire OnError st =
     (if utterances st = [] then None
      else Some (utter_onerror (st\<lparr>utterances := tl (utterances st), speaking := False\<rparr>)))"
| "fire Tick st =
     (if timers st = 0 then None else Some (speakNext (st\<lparr>timers := timers st - 1\<rparr>)))"
| "fire (Play text maxChars) st = playFromStart text maxChars st"
| "fire Stop st = Some (stopAll st)"
| "fire Pause st = Some (pause st)"

fun run :: "event list \<Rightarrow> player \<Rightarrow> player option" where
  "run [] st = Some st"
| "run (e # es) st = (case fire e st of None \<Rightarrow> None | Some st' \<Rightarrow> run es st')"

section \<open>The default voice\<close>

record voice =
  voiceURI :: jsstring
  name :: jsstring
  lang :: jsstring

definition startsWith :: "jsstring \<Rightarrow> jsstring \<Rightarrow> bool" where
  "startsWith s p \<longleftrightarrow> take (length p) s = p"

text \<open>
  \<open>toLowerCase\<close> on the letters A to Z. The script only asks whether the lowered
  language tag starts with \<open>"en"\<close>, and no code unit other than E, e, N, n lowers to
  one of these two letters.
\<close>

definition lower :: "jschar \<Rightarrow> jschar" where
  "lower c = (if 0x41 \<le> c \<and> c \<le> 0x5A then c + 0x20 else c)"

definition isEn :: "voice \<Rightarrow> bool" where
  "isEn v \<longleftrightarrow> startsWith (map lower (lang v)) (asc ''en'')"

definition isEnUS :: "voice \<Rightarrow> bool" where
  "isEnUS v \<longleftrightarrow> startsWith (lang v) (asc ''en-US'')"

text \<open>
  A regular expression with the \<open>i\<close> flag and a literal ASCII pattern matches when the
  pattern occurs somewhere in the subject up to the case of the letters a to z.
\<close>

definition ci_contains :: "jsstring \<Rightarrow> jsstring \<Rightarrow> bool" where
  "ci_contains pat s \<longleftrightarrow>
     list_ex (\<lambda>k. map lower (take (length pat) (drop k s)) = map lower pat) [0..<Suc (length s)]"

text \<open>\<open>/Enhanced|Premium|Google/i.test(v.name)\<close>\<close>

definition marker :: "jsstring \<Rightarrow> bool" where
  "marker nm \<longleftrightarrow>
     ci_contains (asc ''Enhanced'') nm \<or> ci_contains (asc ''Premium'') nm \<or>
     ci_contains (asc ''Google'') nm"

text \<open>
  The comparator handed to \<open>sort\<close>. \<open>localeCompare\<close> belongs to the browser and its
  locale: it is a parameter.
\<close>

definition compareVoices :: "(jsstring \<Rightarrow> jsstring \<Rightarrow> int) \<Rightarrow> voice \<Rightarrow> voice \<Rightarrow> int" where
  "compareVoices localeCompare a b =
     (let aEn = isEn a; bEn = isEn b
      in if aEn \<noteq> bEn then (if aEn then - 1 else 1)
         else localeCompare (name a) (name b))"

text \<open>\<open>Array.prototype.sort\<close> is stable: an insertion sort by the comparator.\<close>

fun insert_by :: "('a \<Rightarrow> 'a \<Rightarrow> int) \<Rightarrow> 'a \<Rightarrow> 'a list \<Rightarrow> 'a list" where
  "insert_by cmp x [] = [x]"
| "insert_by cmp x (y # ys) = (if cmp x y \<le> 0 then x # y # ys else y # insert_by cmp x ys)"

definition sort_by :: "('a \<Rightarrow> 'a \<Rightarrow> int) \<Rightarrow> 'a list \<Rightarrow> 'a list" where
  "sort_by cmp xs = foldr (insert_by cmp) xs []"

text \<open>
  \<open>loadVoices\<close> (the earlier revision selects the first English voice of the sorted
  list, without the \<open>en-US\<close> steps): the list the engine returned, the options of the
  selector in their order, and \<open>selectedVoiceURI\<close> (\<open>None\<close> is \<open>null\<close>). An empty string is falsy, so
  \<open>preferred?.voiceURI || sorted[0]?.voiceURI || null\<close> skips an empty URI.
\<close>

record voice_ui =
  voices :: "voice list"
  voiceSelect :: "voice list"
  selectedVoiceURI :: "jsstring option"

definition truthy_uri :: "voice option \<Rightarrow> jsstring option" where
  "truthy_uri vo =
     (case vo of None \<Rightarrow> None | Some v \<Rightarrow> if voiceURI v = [] then None else Some (voiceURI v))"

definition loadVoices :: "(jsstring \<Rightarrow> jsstring \<Rightarrow> int) \<Rightarrow> voice list \<Rightarrow> voice_ui" where
  "loadVoices localeCompare vs =
     (let sorted = sort_by (compareVoices localeCompare) vs;
          preferred =
            (case find (\<lambda>v. isEnUS v \<and> marker (name v)) sorted of
               Some v \<Rightarrow> Some v
             | None \<Rightarrow>
                (case find isEnUS sorted of
                   Some v \<Rightarrow> Some v
                 | None \<Rightarrow> find isEn sorted))
      in \<lparr> voices = vs, voiceSelect = sorted,
           selectedVoiceURI =
             (case truthy_uri preferred of
                Some u \<Rightarrow> Some u
              | None \<Rightarrow> truthy_uri (case sorted of [] \<Rightarrow> None | v # _ \<Rightarrow> Some v)) \<rparr>)"

text \<open>A collation for the examples: code units compared from the left.\<close>

fun codeunit_compare :: "jsstring \<Rightarrow> jsstring \<Rightarrow> int" where
  "codeunit_compare [] [] = 0"
| "codeunit_compare [] (y # ys) = - 1"
| "codeunit_compare (x # xs) [] = 1"
| "codeunit_compare (x # xs) (y # ys) =
     (if x < y then - 1 else if y < x then 1 else codeunit_compare xs ys)"

text \<open>Two voices for the examples.\<close>

definition samantha :: voice where
  "samantha = \<lparr>voiceURI = asc ''urn:samantha'', name = asc ''Samantha (Enhanced)'',
                lang = asc ''en-US''\<rparr>"

definition google_us :: voice where
  "google_us = \<lparr>voiceURI = asc ''urn:google-us'', name = asc ''Google US English'',
                 lang = asc ''en-US''\<rparr>"

section \<open>The specification's wording, for comparison\<close>

text \<open>
  Section 4.1, step 2b: the break points of a window are the positions of a full stop,
  question mark or exclamation mark followed by a space, and of a newline; the choice is
  the rightmost of them.
\<close>

definition is_break :: "jsstring \<Rightarrow> nat \<Rightarrow> bool" where
  "is_break w k \<longleftrightarrow>
     (k < length w \<and> w ! k = 0x0A) \<or>
     (Suc k < length w \<and> (w ! k = 0x2E \<or> w ! k = 0x3F \<or> w ! k = 0x21) \<and> w ! Suc k = 0x20)"

definition break_points :: "jsstring \<Rightarrow> nat list" where
  "break_points w = filter (is_break w) [0..<length w]"

definition rightmost_break :: "jsstring \<Rightarrow> nat option" where
  "rightmost_break w =
     (if break_points w = [] then None else Some (Max (set (break_points w))))"

text \<open>
  Section 6, the voice policy in the specification's words: the marker is "enhanced" or
  "premium"; (a), (b), (c) take the first entry of the sorted list that qualifies, (d) its
  first entry.
\<close>

definition spec_marker :: "jsstring \<Rightarrow> bool" where
  "spec_marker nm \<longleftrightarrow> ci_contains (asc ''enhanced'') nm \<or> ci_contains (asc ''premium'') nm"

definition voice_policy :: "(jsstring \<Rightarrow> bool) \<Rightarrow> voice list \<Rightarrow> voice option" where
  "voice_policy mark vs =
     (case find (\<lambda>v. isEnUS v \<and> mark (name v)) vs of
        Some v \<Rightarrow> Some v
      | None \<Rightarrow>
         (case find isEnUS vs of
            Some v \<Rightarrow> Some v
          | None \<Rightarrow>
             (case find isEn vs of
                Some v \<Rightarrow> Some v
              | None \<Rightarrow> (case vs of [] \<Rightarrow> None | v # _ \<Rightarrow> Some v))))"

section \<open>The shapes of a session in which every request fails\<close>

text \<open>
  With segments \<open>q\<close> and the engine's log \<open>sp\<close> from before the session, such a session
  is in one of three shapes: a request for the segment at the cursor is outstanding and
  no timer is pending (\<open>awaiting\<close>); no request is outstanding and one timer is pending
  (\<open>scheduled\<close>); or the session is over (\<open>finished\<close>).
\<close>

definition awaiting :: "jsstring list \<Rightarrow> jsstring list \<Rightarrow> player \<Rightarrow> bool" where
  "awaiting q sp st \<longleftrightarrow>
     queue st = q \<and> \<not> paused st \<and> isPlaying st \<and> timers st = 0 \<and>
     currentIndex st < length q \<and> utterances st = [q ! currentIndex st] \<and>
     spoken st = sp @ take (Suc (currentIndex st)) q \<and> statusText st \<noteq> Done"

definition scheduled :: "jsstring list \<Rightarrow> jsstring list \<Rightarrow> player \<Rightarrow> bool" where
  "scheduled q sp st \<longleftrightarrow>
     queue st = q \<and> \<not> paused st \<and> isPlaying st \<and> timers st = 1 \<and>
     currentIndex st \<le> length q \<and> utterances st = [] \<and>
     spoken st = sp @ take (currentIndex st) q \<and> statusText st \<noteq> Done"

definition finished :: "jsstring list \<Rightarrow> jsstring list \<Rightarrow> player \<Rightarrow> bool" where
  "finished q sp st \<longleftrightarrow>
     queue st = q \<and> \<not> paused st \<and> \<not> isPlaying st \<and> timers st = 0 \<and>
     currentIndex st = length q \<and> utterances st = [] \<and>
     spoken st = sp @ q \<and> statusText st = Done"

definition session_inv :: "jsstring list \<Rightarrow> jsstring list \<Rightarrow> player \<Rightarrow> bool" where
  "session_inv q sp st \<longleftrightarrow> awaiting q sp st \<or> scheduled q sp st \<or> finished q sp st"

section \<open>Facts about the string operations\<close>

lemma filter_rev_upt_Cons:
  "filter P (rev [0..<n]) = k # ks \<Longrightarrow> P k \<and> k < n \<and> (\<forall>j<n. P j \<longrightarrow> j \<le> k)"
proof (induction n)
  case 0
  then show ?case by simp
next
  case (Suc n)
  show ?case
  proof (cases "P n")
    case True
    with Suc.prems have "k = n" by simp
    with True show ?thesis by auto
  next
    case False
    with Suc.prems have "filter P (rev [0..<n]) = k # ks" by simp
    from Suc.IH [OF this] False show ?thesis
      by (auto simp: less_Suc_eq)
  qed
qed

lemma filter_rev_upt_Nil:
  "filter P (rev [0..<n]) = [] \<Longrightarrow> \<forall>j<n. \<not> P j"
  by (auto simp: filter_empty_conv)

lemma occurs_at_le: "occurs_at s pat k \<Longrightarrow> k < Suc (length s)"
  by (simp add: occurs_at_def)

lemma lastIndexOf_none:
  assumes "lastIndexOf s pat = - 1"
  shows "\<not> occurs_at s pat k"
proof -
  define xs where "xs = filter (occurs_at s pat) (rev [0..<Suc (length s)])"
  have "lastIndexOf s pat = (case xs of [] \<Rightarrow> - 1 | k # _ \<Rightarrow> int k)"
    by (simp only: lastIndexOf_def xs_def)
  with assms have "xs = []" by (cases xs) auto
  then have "\<forall>j<Suc (length s). \<not> occurs_at s pat j"
    unfolding xs_def by (rule filter_rev_upt_Nil)
  then show ?thesis using occurs_at_le by blast
qed

lemma lastIndexOf_some:
  assumes "lastIndexOf s pat \<noteq> - 1"
  shows "\<exists>k. lastIndexOf s pat = int k \<and> occurs_at s pat k \<and> (\<forall>j. occurs_at s pat j \<longrightarrow> j \<le> k)"
proof -
  from assms obtain k ks where f: "filter (occurs_at s pat) (rev [0..<Suc (length s)]) = k # ks"
    unfolding lastIndexOf_def by (auto split: list.splits)
  from filter_rev_upt_Cons [OF f] have "occurs_at s pat k"
    and "\<forall>j<Suc (length s). occurs_at s pat j \<longrightarrow> j \<le> k" by blast+
  moreover have "lastIndexOf s pat = int k" using f by (simp add: lastIndexOf_def)
  ultimately show ?thesis using occurs_at_le by blast
qed

lemma lastIndexOf_ge: "- 1 \<le> lastIndexOf s pat"
  using lastIndexOf_some [of s pat] by (cases "lastIndexOf s pat = - 1") auto

lemma lastIndexOf_lt:
  assumes "pat \<noteq> []"
  shows "lastIndexOf s pat < int (length s)"
proof (cases "lastIndexOf s pat = - 1")
  case True
  then show ?thesis by simp
next
  case False
  from lastIndexOf_some [OF this] obtain k where "lastIndexOf s pat = int k" "occurs_at s pat k"
    by blast
  with assms show ?thesis by (cases pat) (auto simp: occurs_at_def)
qed

lemma lastBreak_lt: "lastBreak w < int (length w)"
  unfolding lastBreak_def
  by (simp add: lastIndexOf_lt asc_def)

lemma lastBreak_ge: "- 1 \<le> lastBreak w"
  unfolding lastBreak_def using lastIndexOf_ge [of w "[0x0A]"] by simp

lemma rel_index_range: "0 \<le> n \<Longrightarrow> 0 \<le> rel_index n k \<and> rel_index n k \<le> n"
  unfolding rel_index_def by arith

lemma length_js_slice:
  "int (length (js_slice s a b)) =
     max 0 (rel_index (int (length s)) b - rel_index (int (length s)) a)"
proof -
  define f where "f = rel_index (int (length s)) a"
  define t where "t = rel_index (int (length s)) b"
  have r: "0 \<le> f" "f \<le> int (length s)" "0 \<le> t" "t \<le> int (length s)"
    using rel_index_range [of "int (length s)"] by (simp_all add: f_def t_def)
  have "js_slice s a b = take (nat (t - f)) (drop (nat f) s)"
    by (simp only: js_slice_def Let_def f_def t_def)
  then have "length (js_slice s a b) = min (length s - nat f) (nat (t - f))"
    by (simp only: length_take length_drop)
  also have "int \<dots> = max 0 (t - f)" using r by arith
  finally show ?thesis by (simp only: f_def t_def)
qed

lemma js_slice_inside:
  assumes "0 \<le> i" "i \<le> e" "e \<le> int (length s)"
  shows "js_slice s i e = take (nat (e - i)) (drop (nat i) s)"
proof -
  have "rel_index (int (length s)) i = i" "rel_index (int (length s)) e = e"
    using assms unfolding rel_index_def by arith+
  then show ?thesis by (simp only: js_slice_def Let_def)
qed

lemma length_trim_le: "length (trim s) \<le> length s"
proof -
  have "length (trim s) = length (dropWhile is_ws (rev (dropWhile is_ws s)))"
    by (simp add: trim_def)
  also have "\<dots> \<le> length (rev (dropWhile is_ws s))" by (rule length_dropWhile_le)
  also have "\<dots> = length (dropWhile is_ws s)" by simp
  also have "\<dots> \<le> length s" by (rule length_dropWhile_le)
  finally show ?thesis .
qed

section \<open>The chunker loop\<close>

lemma chunk_end_bounds:
  assumes "0 < m" "0 \<le> i" "i < int (length clean)"
  shows "i < chunk_end clean m i \<and> chunk_end clean m i \<le> int (length clean)
         \<and> chunk_end clean m i - i \<le> m"
proof -
  define e where "e = min (i + m) (int (length clean))"
  define w where "w = js_slice clean i e"
  have e: "i < e" "e \<le> int (length clean)" "e - i \<le> m"
    using assms by (auto simp: e_def)
  have lw: "int (length w) = e - i"
    using e assms by (simp add: w_def js_slice_inside)
  have ce: "chunk_end clean m i =
      (if e < int (length clean) \<and> lastBreak w > 200 then i + lastBreak w + 1 else e)"
    by (simp only: chunk_end_def Let_def e_def w_def)
  show ?thesis
  proof (cases "e < int (length clean) \<and> lastBreak w > 200")
    case True
    then have "chunk_end clean m i = i + lastBreak w + 1" using ce by simp
    moreover have "lastBreak w < e - i" using lastBreak_lt [of w] lw by simp
    ultimately show ?thesis using True e by auto
  next
    case False
    then have "chunk_end clean m i = e" using ce by auto
    then show ?thesis using e by simp
  qed
qed

lemma chunk_loop_total:
  assumes "0 < m" "0 \<le> i" "i \<le> int (length clean)"
  shows "\<exists>ss. chunk_loop clean m i acc = Some (acc @ filter (\<lambda>s. s \<noteq> []) (map trim ss))
              \<and> concat ss = drop (nat i) clean
              \<and> (\<forall>s\<in>set ss. s \<noteq> [] \<and> int (length s) \<le> m)"
  using assms
proof (induction "nat (int (length clean) - i)" arbitrary: i acc rule: less_induct)
  case less
  show ?case
  proof (cases "i < int (length clean)")
    case False
    with less.prems have "i = int (length clean)" by simp
    then have "chunk_loop clean m i acc = Some acc"
      by (subst chunk_loop.simps) simp
    then show ?thesis using \<open>i = int (length clean)\<close>
      by (intro exI [of _ "[]"]) simp
  next
    case True
    define e where "e = chunk_end clean m i"
    define s where "s = js_slice clean i e"
    define acc' where "acc' = (if trim s \<noteq> [] then acc @ [trim s] else acc)"
    from chunk_end_bounds [OF less.prems(1,2) True]
    have e: "i < e" "e \<le> int (length clean)" "e - i \<le> m" by (simp_all add: e_def)
    have s: "s = take (nat (e - i)) (drop (nat i) clean)"
      using e less.prems by (simp add: s_def js_slice_inside)
    have step: "chunk_loop clean m i acc = chunk_loop clean m e acc'"
      using True by (subst chunk_loop.simps) (simp add: Let_def e_def s_def acc'_def)
    have "nat (int (length clean) - e) < nat (int (length clean) - i)"
      using e True by simp
    from less.hyps [OF this less.prems(1) _ e(2), of acc'] e less.prems
    obtain ss where ss: "chunk_loop clean m e acc' = Some (acc' @ filter (\<lambda>s. s \<noteq> []) (map trim ss))"
      "concat ss = drop (nat e) clean" "\<forall>s\<in>set ss. s \<noteq> [] \<and> int (length s) \<le> m"
      by auto
    have "nat e = nat i + nat (e - i)" using e less.prems by simp
    then have d: "drop (nat e) clean = drop (nat (e - i)) (drop (nat i) clean)"
      by (simp add: add.commute)
    have "concat (s # ss) =
        take (nat (e - i)) (drop (nat i) clean) @ drop (nat (e - i)) (drop (nat i) clean)"
      using ss(2) s d by (simp del: drop_drop)
    then have cat: "concat (s # ss) = drop (nat i) clean"
      by (simp only: append_take_drop_id)
    have len: "int (length s) = e - i" using s e less.prems True by simp
    then have ne: "s \<noteq> []" using e by auto
    have "acc' @ filter (\<lambda>s. s \<noteq> []) (map trim ss) = acc @ filter (\<lambda>s. s \<noteq> []) (map trim (s # ss))"
      by (simp add: acc'_def)
    with step ss(1) have "chunk_loop clean m i acc = Some (acc @ filter (\<lambda>s. s \<noteq> []) (map trim (s # ss)))"
      by simp
    moreover have "\<forall>t\<in>set (s # ss). t \<noteq> [] \<and> int (length t) \<le> m"
      using ss(3) len e ne by simp
    ultimately show ?thesis using cat by blast
  qed
qed

lemma chunk_end_nonpos:
  assumes "m \<le> 0" "i < int (length clean)"
  shows "chunk_end clean m i < int (length clean)"
proof -
  define n where "n = int (length clean)"
  define e where "e = min (i + m) n"
  define w where "w = js_slice clean i e"
  have e: "e = i + m" "e < n" using assms by (auto simp: e_def n_def)
  have ce: "chunk_end clean m i =
      (if e < n \<and> lastBreak w > 200 then i + lastBreak w + 1 else e)"
    by (simp only: chunk_end_def Let_def e_def w_def n_def)
  have lw: "int (length w) = max 0 (rel_index n e - rel_index n i)"
    unfolding w_def n_def by (rule length_js_slice)
  have "i + int (length w) < n"
  proof (cases "0 \<le> i")
    case True
    then have "rel_index n i = i" using assms by (simp add: rel_index_def n_def)
    moreover have "rel_index n e < n" using e True assms
      by (auto simp: rel_index_def n_def)
    ultimately show ?thesis using lw assms by (simp add: n_def)
  next
    case False
    have "0 \<le> n" by (simp add: n_def)
    from rel_index_range [OF this] have "rel_index n e \<le> n" "0 \<le> rel_index n i" by blast+
    then show ?thesis using lw False \<open>0 \<le> n\<close> by linarith
  qed
  moreover have "lastBreak w < int (length w)" by (rule lastBreak_lt)
  ultimately show ?thesis using ce e by (simp add: n_def)
qed

lemma chunk_loop_Some_outside:
  assumes "chunk_loop clean m i acc = Some y"
  shows "m \<le> 0 \<longrightarrow> \<not> i < int (length clean)"
proof (rule chunk_loop.raw_induct
    [where P = "\<lambda>c m' i' a' y'. m' \<le> 0 \<longrightarrow> \<not> i' < int (length c)", OF _ assms])
  fix f :: "jsstring \<Rightarrow> int \<Rightarrow> int \<Rightarrow> jsstring list \<Rightarrow> jsstring list option"
    and c m' i' a' y'
  assume IH: "\<And>c m' i' a' y'. f c m' i' a' = Some y' \<Longrightarrow> m' \<le> 0 \<longrightarrow> \<not> i' < int (length c)"
  assume eq: "(if i' < int (length c)
      then let end = chunk_end c m' i'; part = trim (js_slice c i' end)
           in f c m' end (if part \<noteq> [] then a' @ [part] else a')
      else Some a') = Some y'"
  show "m' \<le> 0 \<longrightarrow> \<not> i' < int (length c)"
  proof (intro impI notI)
    assume m: "m' \<le> 0" and i: "i' < int (length c)"
    define e where "e = chunk_end c m' i'"
    from eq i obtain b where "f c m' e b = Some y'"
      by (simp add: Let_def e_def)
    from IH [OF this] m have "\<not> e < int (length c)" by simp
    moreover have "e < int (length c)"
      unfolding e_def using m i by (rule chunk_end_nonpos)
    ultimately show False by simp
  qed
qed

lemma chunk_loop_diverges:
  assumes "m \<le> 0" "i < int (length clean)"
  shows "chunk_loop clean m i acc = None"
proof (cases "chunk_loop clean m i acc")
  case None
  then show ?thesis .
next
  case (Some y)
  from chunk_loop_Some_outside [OF this] assms show ?thesis by simp
qed

section \<open>Break points\<close>

lemma occurs_at_1: "occurs_at w [a] k \<longleftrightarrow> k < length w \<and> w ! k = a"
proof (cases "k < length w")
  case True
  then have "drop k w = w ! k # drop (Suc k) w" by (simp add: Cons_nth_drop_Suc)
  then show ?thesis using True by (simp add: occurs_at_def)
next
  case False
  then show ?thesis by (simp add: occurs_at_def)
qed

lemma occurs_at_2:
  "occurs_at w [a, b] k \<longleftrightarrow> Suc k < length w \<and> w ! k = a \<and> w ! Suc k = b"
proof (cases "Suc k < length w")
  case True
  then have "drop k w = w ! k # w ! Suc k # drop (Suc (Suc k)) w"
    by (simp add: Cons_nth_drop_Suc Suc_lessD)
  then show ?thesis using True by (simp add: occurs_at_def)
next
  case False
  then show ?thesis by (simp add: occurs_at_def)
qed

lemma is_break_occurs:
  "is_break w k \<longleftrightarrow>
     occurs_at w (asc ''. '') k \<or> occurs_at w (asc ''? '') k \<or>
     occurs_at w (asc ''! '') k \<or> occurs_at w [0x0A] k"
  by (auto simp: is_break_def asc_def occurs_at_1 occurs_at_2)

lemma set_break_points: "set (break_points w) = {k. is_break w k}"
  by (auto simp: break_points_def is_break_def)

lemma occurs_le_lastIndexOf:
  assumes "occurs_at w p k"
  shows "int k \<le> lastIndexOf w p"
proof -
  from assms lastIndexOf_none have "lastIndexOf w p \<noteq> - 1" by blast
  from lastIndexOf_some [OF this] assms show ?thesis by auto
qed

lemma lastIndexOf_occurs:
  assumes "0 \<le> lastIndexOf w p"
  shows "occurs_at w p (nat (lastIndexOf w p))"
proof -
  from assms have "lastIndexOf w p \<noteq> - 1" by simp
  from lastIndexOf_some [OF this] show ?thesis by auto
qed

lemma break_le_lastBreak:
  assumes "is_break w k"
  shows "int k \<le> lastBreak w"
  using assms occurs_le_lastIndexOf [of w _ k]
  unfolding is_break_occurs lastBreak_def by fastforce

lemma lastBreak_is_break:
  assumes "0 \<le> lastBreak w"
  shows "is_break w (nat (lastBreak w))"
proof -
  have "lastBreak w = lastIndexOf w (asc ''. '') \<or> lastBreak w = lastIndexOf w (asc ''? '')
      \<or> lastBreak w = lastIndexOf w (asc ''! '') \<or> lastBreak w = lastIndexOf w [0x0A]"
    unfolding lastBreak_def by (simp only: max_def) metis
  with assms lastIndexOf_occurs show ?thesis
    unfolding is_break_occurs by metis
qed

lemma lastBreak_rightmost:
  "lastBreak w = (case rightmost_break w of None \<Rightarrow> - 1 | Some k \<Rightarrow> int k)"
proof (cases "break_points w = []")
  case True
  then have none: "\<And>k. \<not> is_break w k"
    using set_break_points [of w] by auto
  have "\<not> 0 \<le> lastBreak w" using lastBreak_is_break none by blast
  with lastBreak_ge [of w] have "lastBreak w = - 1" by simp
  then show ?thesis using True by (simp add: rightmost_break_def)
next
  case False
  then obtain k where k: "is_break w k"
    using set_break_points [of w] by (cases "break_points w") auto
  from break_le_lastBreak [OF k] have nn: "0 \<le> lastBreak w" by simp
  have "Max (set (break_points w)) = nat (lastBreak w)"
  proof (rule Max_eqI)
    show "finite (set (break_points w))" by simp
    show "nat (lastBreak w) \<in> set (break_points w)"
      using lastBreak_is_break [OF nn] by (simp add: set_break_points)
    fix j assume "j \<in> set (break_points w)"
    then have "is_break w j" by (simp add: set_break_points)
    from break_le_lastBreak [OF this] show "j \<le> nat (lastBreak w)" by simp
  qed
  then show ?thesis using False nn by (simp add: rightmost_break_def)
qed

section \<open>Claims about the chunker\<close>

lemma chunkText_slices:
  assumes "0 < m"
  shows "\<exists>ss. chunkText text m = Some (filter (\<lambda>s. s \<noteq> []) (map trim ss))
              \<and> concat ss = trim (replace_crlf text)
              \<and> (\<forall>s\<in>set ss. s \<noteq> [] \<and> int (length s) \<le> m)"
proof (cases "trim (replace_crlf text) = []")
  case True
  then have "chunkText text m = Some []" by (simp add: chunkText_def)
  with True show ?thesis by (intro exI [of _ "[]"]) simp
next
  case False
  from chunk_loop_total [OF assms, of 0 "trim (replace_crlf text)" "[]"]
  obtain ss where "chunk_loop (trim (replace_crlf text)) m 0 [] =
        Some (filter (\<lambda>s. s \<noteq> []) (map trim ss))"
    "concat ss = trim (replace_crlf text)" "\<forall>s\<in>set ss. s \<noteq> [] \<and> int (length s) \<le> m"
    by auto
  with False show ?thesis by (intro exI [of _ ss]) (simp add: chunkText_def)
qed

lemma chunk_length_le:
  assumes "0 < m" "chunkText text m = Some cs" "c \<in> set cs"
  shows "int (length c) \<le> m"
proof -
  from chunkText_slices [OF assms(1), of "text"] assms(2)
  obtain ss where cs: "cs = filter (\<lambda>s. s \<noteq> []) (map trim ss)"
    and le: "\<forall>s\<in>set ss. s \<noteq> [] \<and> int (length s) \<le> m" by auto
  from assms(3) cs obtain s where "s \<in> set ss" "c = trim s" by auto
  with le length_trim_le [of s] show ?thesis by fastforce
qed

text \<open>
  C2, as stated, fails: every slice is trimmed before it is pushed, so white space next
  to a cut is gone from the chunks. With \<open>maxChars = 2\<close> the text \<open>"abc d"\<close> gives the
  chunks \<open>"ab"\<close>, \<open>"c"\<close>, \<open>"d"\<close>, whose concatenation \<open>"abcd"\<close> is not the text.
\<close>

theorem chunkText_concat_counterexample:
  "map_option concat (chunkText (asc ''abc d'') 2) \<noteq> Some (trim (replace_crlf (asc ''abc d'')))"
  by code_simp

text \<open>
  C2, amended: for every text and every positive \<open>maxChars\<close> the chunker returns, and
  the normalised, trimmed text is cut into consecutive non-empty slices (nothing between
  two slices is dropped or repeated) of which the chunks are the trimmed ones, in order,
  those that are all white space left out. So what the chunks lose is white space at the
  ends of the slices, and nothing else.
\<close>

theorem chunkText_partition:
  "0 < m \<Longrightarrow>
   \<exists>ss. concat ss = trim (replace_crlf text) \<and> [] \<notin> set ss \<and>
        chunkText text m = Some (filter (\<lambda>s. s \<noteq> []) (map trim ss))"
  using chunkText_slices [of m "text"] by blast

theorem chunkText_partition_witness:
  "(0::int) < 2 \<and>
   (\<exists>ss. concat ss = trim (replace_crlf (asc ''abc d'')) \<and> [] \<notin> set ss \<and>
         chunkText (asc ''abc d'') 2 = Some (filter (\<lambda>s. s \<noteq> []) (map trim ss)))"
  using chunkText_partition [of 2 "asc ''abc d''"] by simp

text \<open>
  C3, as stated, fails: the chunker has no check of \<open>maxChars\<close> and raises nothing. With
  \<open>maxChars = 0\<close> the empty text gives the empty sequence, a result and not an error.
\<close>

theorem chunkText_nonpositive_counterexample:
  "chunkText [] 0 = Some []"
  by (simp add: chunkText_def trim_def)

text \<open>
  C3, amended: with \<open>maxChars \<le> 0\<close> the chunker returns the empty sequence when the text
  is empty after normalisation and trimming, and does not return at all otherwise (the
  loop never leaves the text); it never reports an error.
\<close>

theorem chunkText_nonpositive:
  "m \<le> 0 \<Longrightarrow>
   chunkText text m = (if trim (replace_crlf text) = [] then Some [] else None)"
  by (simp add: chunkText_def chunk_loop_diverges)

theorem chunkText_nonpositive_witness:
  "(0::int) \<le> 0 \<and> chunkText (asc ''a'') 0 = None"
  using chunkText_nonpositive [of 0 "asc ''a''"]
  by (simp add: trim_def asc_def is_ws_def)

text \<open>
  C4: for every text and every positive \<open>maxChars\<close> the chunker returns, and every chunk
  is at most \<open>maxChars\<close> long or is the end of the normalised, trimmed text. (The first
  alternative holds for every chunk, see \<open>chunk_length_le\<close>.)
\<close>

theorem chunk_length_bound:
  "0 < m \<Longrightarrow>
   \<exists>cs. chunkText text m = Some cs \<and>
        (\<forall>c\<in>set cs. int (length c) \<le> m \<or> (\<exists>p. trim (replace_crlf text) = p @ c))"
proof -
  assume m: "0 < m"
  from chunkText_slices [OF m, of "text"] obtain cs where cs: "chunkText text m = Some cs"
    by blast
  with m chunk_length_le have "\<forall>c\<in>set cs. int (length c) \<le> m" by blast
  with cs show ?thesis by blast
qed

theorem chunk_length_bound_witness:
  "(0::int) < 4 \<and>
   (\<exists>cs. chunkText (asc ''a. b. c.'') 4 = Some cs \<and>
         (\<forall>c\<in>set cs. int (length c) \<le> 4 \<or> (\<exists>p. trim (replace_crlf (asc ''a. b. c.'')) = p @ c)))"
  using chunk_length_bound [of 4 "asc ''a. b. c.''"] by simp

text \<open>
  C5: in every window the value the chunker computes as \<open>lastBreak\<close> is the rightmost
  position of a break point (\<open>". "\<close>, \<open>"? "\<close>, \<open>"! "\<close> or a newline), or \<open>-1\<close> when the
  window has none; and \<open>end\<close> moves to just after that position exactly when the position
  exists, is greater than 200, and the proposed \<open>end\<close> is before the end of the text;
  otherwise the proposed \<open>end\<close> stays.
\<close>

theorem chunk_end_rightmost_break:
  "lastBreak w = (case rightmost_break w of None \<Rightarrow> - 1 | Some k \<Rightarrow> int k) \<and>
   chunk_end clean m i =
     (let end = min (i + m) (int (length clean))
      in case rightmost_break (js_slice clean i end) of
           None \<Rightarrow> end
         | Some k \<Rightarrow> if 200 < k \<and> end < int (length clean) then i + int k + 1 else end)"
proof
  show "lastBreak w = (case rightmost_break w of None \<Rightarrow> - 1 | Some k \<Rightarrow> int k)"
    by (rule lastBreak_rightmost)
  show "chunk_end clean m i =
     (let end = min (i + m) (int (length clean))
      in case rightmost_break (js_slice clean i end) of
           None \<Rightarrow> end
         | Some k \<Rightarrow> if 200 < k \<and> end < int (length clean) then i + int k + 1 else end)"
  proof -
    define e where "e = min (i + m) (int (length clean))"
    define v where "v = js_slice clean i e"
    have ce: "chunk_end clean m i =
        (if e < int (length clean) \<and> lastBreak v > 200 then i + lastBreak v + 1 else e)"
      by (simp only: chunk_end_def Let_def e_def v_def)
    have "chunk_end clean m i =
        (case rightmost_break v of
           None \<Rightarrow> e
         | Some k \<Rightarrow> if 200 < k \<and> e < int (length clean) then i + int k + 1 else e)"
      unfolding ce lastBreak_rightmost [of v] by (cases "rightmost_break v") auto
    then show ?thesis by (simp only: Let_def e_def v_def)
  qed
qed

section \<open>Claims about stop, progress and pause\<close>

text \<open>
  C6: from any state \<open>stopAll\<close> (the Stop button) empties the engine's queue, clears
  the segments, puts the cursor at 0, shows "Stopped" and the progress \<open>0 / 0\<close>, and
  clears the playing flag. It is a total function: there is no state in which it fails.
\<close>

theorem stopAll_clears:
  "utterances (stopAll st) = [] \<and> queue (stopAll st) = [] \<and> currentIndex (stopAll st) = 0 \<and>
   statusText (stopAll st) = Stopped \<and> progressText (stopAll st) = (0, 0) \<and>
   \<not> isPlaying (stopAll st) \<and> fire Stop st = Some (stopAll st)"
  by (simp add: stopAll_def setProgress_def setStatus_def engine_cancel_def)

text \<open>
  Whenever \<open>setProgress\<close> runs, the progress line it writes is \<open>(min(cursor, total), total)\<close>;
  \<open>onend\<close> calls it right after moving the cursor, also past the last index.
\<close>

lemma setProgress_clamped:
  "progressText (setProgress st) =
     (min (currentIndex st) (length (queue st)), length (queue st)) \<and>
   fst (progressText (setProgress st)) \<le> snd (progressText (setProgress st)) \<and>
   fst (progressText (utter_onend st)) \<le> snd (progressText (utter_onend st))"
  by (simp add: setProgress_def utter_onend_def Let_def)

text \<open>
  The progress line changes only through \<open>setProgress\<close>, so in every state the page
  reaches from its initial state the first number is at most the second.
\<close>

lemma setProgress_le: "fst (progressText (setProgress st)) \<le> snd (progressText (setProgress st))"
  by (simp add: setProgress_def Let_def)

lemma speakNext_progress_le:
  assumes "fst (progressText st) \<le> snd (progressText st)"
  shows "fst (progressText (speakNext st)) \<le> snd (progressText (speakNext st))"
proof -
  have "speakNext st = st
      \<or> speakNext st = setProgress (setStatus Done (st\<lparr>isPlaying := False\<rparr>))
      \<or> speakNext st = engine_speak (queue st ! currentIndex st) st"
    by (simp add: speakNext_def)
  then consider "speakNext st = st"
    | "speakNext st = setProgress (setStatus Done (st\<lparr>isPlaying := False\<rparr>))"
    | "speakNext st = engine_speak (queue st ! currentIndex st) st"
    by blast
  then show ?thesis
  proof cases
    case 1
    with assms show ?thesis by simp
  next
    case 2
    then show ?thesis by (simp only: setProgress_le)
  next
    case 3
    with assms show ?thesis by (simp add: engine_speak_def)
  qed
qed

lemma fire_progress_le:
  assumes "fst (progressText st) \<le> snd (progressText st)" "fire ev st = Some st'"
  shows "fst (progressText st') \<le> snd (progressText st')"
proof (cases ev)
  case OnStart
  with assms(2) have "st' = utter_onstart (st\<lparr>speaking := True\<rparr>)" by (simp split: if_splits)
  then show ?thesis by (simp only: utter_onstart_def setProgress_le)
next
  case OnEnd
  with assms(2) show ?thesis
    by (auto simp: utter_onend_def setProgress_def Let_def split: if_splits)
next
  case OnError
  with assms show ?thesis
    by (auto simp: utter_onerror_def setStatus_def Let_def split: if_splits)
next
  case Tick
  with assms(2) have "st' = speakNext (st\<lparr>timers := timers st - 1\<rparr>)" by (simp split: if_splits)
  moreover have "fst (progressText (st\<lparr>timers := timers st - 1\<rparr>))
      \<le> snd (progressText (st\<lparr>timers := timers st - 1\<rparr>))" using assms(1) by simp
  ultimately show ?thesis using speakNext_progress_le by blast
next
  case (Play t m)
  with assms(2) obtain chunks where c: "chunkText t m = Some chunks"
    by (auto simp: playFromStart_def split: option.splits)
  show ?thesis
  proof (cases "chunks = []")
    case True
    with c Play assms(2) have "st' = setProgress (setStatus NothingToPlay
        ((engine_cancel st)\<lparr>queue := chunks, currentIndex := 0, isPlaying := False\<rparr>))"
      by (simp add: playFromStart_def Let_def)
    then show ?thesis by (simp only: setProgress_le)
  next
    case False
    with c Play assms(2) have "st' = speakNext (setProgress (setStatus Queued
        ((engine_cancel st)\<lparr>queue := chunks, currentIndex := 0, isPlaying := True\<rparr>)))"
      by (simp add: playFromStart_def Let_def)
    then show ?thesis by (simp only: speakNext_progress_le setProgress_le)
  qed
next
  case Stop
  with assms(2) have "st' = stopAll st" by simp
  then show ?thesis by (simp only: stopAll_def setProgress_le)
next
  case Pause
  with assms show ?thesis
    by (auto simp: pause_def setStatus_def engine_pause_def split: if_splits)
qed

lemma progress_never_exceeds_total:
  assumes "run evs init = Some st"
  shows "fst (progressText st) \<le> snd (progressText st)"
proof -
  have "\<And>s. fst (progressText s) \<le> snd (progressText s) \<Longrightarrow> run evs s = Some st \<Longrightarrow>
      fst (progressText st) \<le> snd (progressText st)"
  proof (induction evs)
    case Nil
    then show ?case by simp
  next
    case (Cons e es)
    from Cons.prems(2) obtain s1 where s1: "fire e s = Some s1" "run es s1 = Some st"
      by (auto split: option.splits)
    from fire_progress_le [OF Cons.prems(1) s1(1)] Cons.IH s1(2) show ?case by blast
  qed
  moreover have "fst (progressText init) \<le> snd (progressText init)" by (simp add: init_def)
  ultimately show ?thesis using assms by blast
qed

text \<open>
  C7: the progress the page reports is to be \<open>(min(cursor, total), total)\<close> in every
  session state. \<open>onend\<close> moves the cursor and calls \<open>setProgress\<close>; \<open>onerror\<close> moves the
  cursor and does not. After Play on the text \<open>"ab"\<close> with \<open>maxChars = 1\<close> and a failure of
  the first request, the cursor is 1 of 2 segments and the progress line still reads
  \<open>0 / 2\<close>, not \<open>1 / 2\<close>.
\<close>

theorem onerror_progress_stale:
  "map_option (\<lambda>s. (progressText s, currentIndex s, length (queue s)))
     (run [Play (asc ''ab'') 1, OnError] init) = Some ((0, 2), 1, 2)"
  by code_simp

text \<open>
  C8: \<open>pause\<close> changes nothing unless the engine is speaking and not paused; when it is,
  \<open>pause\<close> pauses the engine and shows "Paused", and changes nothing else.
\<close>

theorem pause_effect:
  "pause st =
     (if speaking st \<and> \<not> paused st then st\<lparr>paused := True, statusText := Paused\<rparr> else st)"
  by (simp add: pause_def setStatus_def engine_pause_def)

text \<open>
  C10: when the playing flag is false, \<open>speakNext\<close> returns the state as it is: no request,
  no change of cursor or status; a pending timer that fires then only disappears. The
  flag is false after \<open>stopAll\<close>, after \<open>speakNext\<close> has found the queue exhausted, and
  after a \<open>playFromStart\<close> whose chunk list is empty.
\<close>

theorem speakNext_not_playing:
  "(\<not> isPlaying st \<longrightarrow>
      speakNext st = st \<and>
      (0 < timers st \<longrightarrow> fire Tick st = Some (st\<lparr>timers := timers st - 1\<rparr>))) \<and>
   \<not> isPlaying (stopAll st) \<and>
   (isPlaying st \<and> \<not> paused st \<and> length (queue st) \<le> currentIndex st \<longrightarrow>
      \<not> isPlaying (speakNext st)) \<and>
   (chunkText text m = Some [] \<longrightarrow>
      map_option isPlaying (playFromStart text m st) = Some False)"
  by (simp add: speakNext_def stopAll_def setProgress_def setStatus_def engine_cancel_def
      playFromStart_def Let_def)

theorem speakNext_not_playing_witness:
  "\<not> isPlaying (init\<lparr>timers := 1\<rparr>) \<and> 0 < timers (init\<lparr>timers := 1\<rparr>) \<and>
   speakNext (init\<lparr>timers := 1\<rparr>) = init\<lparr>timers := 1\<rparr> \<and>
   fire Tick (init\<lparr>timers := 1\<rparr>) = Some init \<and>
   isPlaying (init\<lparr>isPlaying := True\<rparr>) \<and> \<not> paused (init\<lparr>isPlaying := True\<rparr>) \<and>
   length (queue (init\<lparr>isPlaying := True\<rparr>)) \<le> currentIndex (init\<lparr>isPlaying := True\<rparr>) \<and>
   \<not> isPlaying (speakNext (init\<lparr>isPlaying := True\<rparr>)) \<and>
   chunkText [] 1200 = Some [] \<and>
   map_option isPlaying (playFromStart [] 1200 init) = Some False"
  using speakNext_not_playing [of "init\<lparr>timers := 1\<rparr>" "[]" 1200]
    speakNext_not_playing [of "init\<lparr>isPlaying := True\<rparr>" "[]" 1200]
    speakNext_not_playing [of init "[]" 1200]
  by (simp add: init_def chunkText_def trim_def)

section \<open>A session in which every request fails\<close>

lemmas player_defs = speakNext_def setProgress_def setStatus_def engine_speak_def
  engine_cancel_def utter_onstart_def utter_onerror_def Let_def

lemma awaiting_play:
  assumes "timers st = 0" "\<not> paused st" "playFromStart text m st = Some s0" "queue s0 \<noteq> []"
  shows "awaiting (queue s0) (spoken st) s0 \<and> currentIndex s0 = 0"
proof -
  from assms(3) obtain chunks where c: "chunkText text m = Some chunks"
    by (auto simp: playFromStart_def split: option.splits)
  show ?thesis
  proof (cases "chunks = []")
    case True
    with c assms(3,4) show ?thesis
      by (auto simp: playFromStart_def player_defs)
  next
    case False
    then have t: "take (Suc 0) chunks = [chunks ! 0]"
      by (cases chunks) simp_all
    with False c assms show ?thesis
      by (auto simp: playFromStart_def player_defs awaiting_def)
  qed
qed

lemma awaiting_OnStart:
  assumes "awaiting q sp st" "fire OnStart st = Some st'"
  shows "awaiting q sp st' \<and> currentIndex st' = currentIndex st"
proof -
  from assms have "st' = utter_onstart (st\<lparr>speaking := True\<rparr>)"
    by (simp add: awaiting_def)
  with assms(1) show ?thesis by (simp add: awaiting_def player_defs)
qed

lemma awaiting_OnError:
  assumes "awaiting q sp st" "fire OnError st = Some st'"
  shows "scheduled q sp st' \<and> currentIndex st' = Suc (currentIndex st)"
proof -
  from assms have "st' = utter_onerror (st\<lparr>utterances := tl (utterances st), speaking := False\<rparr>)"
    by (simp add: awaiting_def)
  with assms(1) show ?thesis by (simp add: awaiting_def scheduled_def player_defs)
qed

lemma awaiting_Tick: "awaiting q sp st \<Longrightarrow> fire Tick st = None"
  by (simp add: awaiting_def)

lemma scheduled_Tick:
  assumes "scheduled q sp st" "fire Tick st = Some st'"
  shows "(awaiting q sp st' \<or> finished q sp st') \<and> currentIndex st' = currentIndex st"
proof -
  from assms have s: "st' = speakNext (st\<lparr>timers := 0\<rparr>)"
    by (simp add: scheduled_def)
  show ?thesis
  proof (cases "currentIndex st < length q")
    case True
    with s assms(1) have "st' = engine_speak (q ! currentIndex st) (st\<lparr>timers := 0\<rparr>)"
      by (simp add: scheduled_def speakNext_def)
    with True assms(1) have "awaiting q sp st'" "currentIndex st' = currentIndex st"
      by (simp_all add: scheduled_def awaiting_def engine_speak_def take_Suc_conv_app_nth)
    then show ?thesis by simp
  next
    case False
    with assms(1) have eq: "currentIndex st = length q" by (simp add: scheduled_def)
    with s assms(1) have "st' = setProgress (setStatus Done (st\<lparr>timers := 0, isPlaying := False\<rparr>))"
      by (simp add: scheduled_def speakNext_def)
    with eq assms(1) have "finished q sp st'" "currentIndex st' = currentIndex st"
      by (simp_all add: scheduled_def finished_def setProgress_def setStatus_def Let_def)
    then show ?thesis by simp
  qed
qed

lemma scheduled_no_callback:
  "scheduled q sp st \<Longrightarrow> fire OnStart st = None \<and> fire OnError st = None"
  by (simp add: scheduled_def)

lemma finished_quiet:
  "finished q sp st \<Longrightarrow> fire OnStart st = None \<and> fire OnError st = None \<and> fire Tick st = None"
  by (simp add: finished_def)

lemma session_inv_fire:
  assumes "session_inv q sp st" "fire ev st = Some st'" "ev \<in> {OnStart, OnError, Tick}"
  shows "session_inv q sp st' \<and>
         currentIndex st' = currentIndex st + (if ev = OnError then 1 else 0)"
proof -
  consider (a) "awaiting q sp st" | (s) "scheduled q sp st" | (f) "finished q sp st"
    using assms(1) unfolding session_inv_def by blast
  then show ?thesis
  proof cases
    case a
    from assms(3) consider "ev = OnStart" | "ev = OnError" | "ev = Tick" by auto
    then show ?thesis
    proof cases
      case 1
      with awaiting_OnStart [OF a] assms(2) show ?thesis by (simp add: session_inv_def)
    next
      case 2
      with awaiting_OnError [OF a] assms(2) show ?thesis by (simp add: session_inv_def)
    next
      case 3
      with awaiting_Tick [OF a] assms(2) show ?thesis by simp
    qed
  next
    case s
    from assms(3) consider "ev = OnStart" | "ev = OnError" | "ev = Tick" by auto
    then show ?thesis
    proof cases
      case 1
      with scheduled_no_callback [OF s] assms(2) show ?thesis by simp
    next
      case 2
      with scheduled_no_callback [OF s] assms(2) show ?thesis by simp
    next
      case 3
      with scheduled_Tick [OF s] assms(2) show ?thesis by (auto simp: session_inv_def)
    qed
  next
    case f
    from finished_quiet [OF f] assms(2,3) show ?thesis by auto
  qed
qed

lemma session_inv_run:
  assumes "session_inv q sp st" "run evs st = Some st'" "set evs \<subseteq> {OnStart, OnError, Tick}"
  shows "session_inv q sp st' \<and> currentIndex st' = currentIndex st + count_list evs OnError"
  using assms
proof (induction evs arbitrary: st)
  case Nil
  then show ?case by simp
next
  case (Cons e es)
  from Cons.prems(2) obtain s1 where s1: "fire e st = Some s1" "run es s1 = Some st'"
    by (auto split: option.splits)
  from Cons.prems(3) have e: "e \<in> {OnStart, OnError, Tick}" and es: "set es \<subseteq> {OnStart, OnError, Tick}"
    by auto
  from session_inv_fire [OF Cons.prems(1) s1(1) e]
  have i1: "session_inv q sp s1"
    and c1: "currentIndex s1 = currentIndex st + (if e = OnError then 1 else 0)" by blast+
  from Cons.IH [OF i1 s1(2) es] c1 show ?case by auto
qed

lemma run_append:
  "run (xs @ ys) st = (case run xs st of None \<Rightarrow> None | Some s \<Rightarrow> run ys s)"
  by (induction xs arbitrary: st) (auto split: option.splits)

lemma awaiting_round:
  assumes "awaiting q sp st"
  shows "\<exists>st'. run [OnError, Tick] st = Some st' \<and> (awaiting q sp st' \<or> finished q sp st') \<and>
           currentIndex st' = Suc (currentIndex st)"
proof -
  from assms obtain s1 where f1: "fire OnError st = Some s1"
    by (auto simp: awaiting_def)
  from awaiting_OnError [OF assms f1] have s1: "scheduled q sp s1"
    and c1: "currentIndex s1 = Suc (currentIndex st)" by blast+
  from s1 obtain s2 where f2: "fire Tick s1 = Some s2"
    by (auto simp: scheduled_def)
  from scheduled_Tick [OF s1 f2] c1 f1 f2 show ?thesis by simp
qed

lemma awaiting_completes:
  assumes "awaiting q sp st" "length q - currentIndex st = n"
  shows "\<exists>s. run (concat (replicate n [OnError, Tick])) st = Some s \<and> finished q sp s"
  using assms
proof (induction n arbitrary: st)
  case 0
  then show ?case by (simp add: awaiting_def)
next
  case (Suc n)
  from awaiting_round [OF Suc.prems(1)] obtain s1 where
    r: "run [OnError, Tick] st = Some s1" and d: "awaiting q sp s1 \<or> finished q sp s1"
    and c1: "currentIndex s1 = Suc (currentIndex st)" by blast
  have "run (concat (replicate (Suc n) [OnError, Tick])) st =
      (case run [OnError, Tick] st of None \<Rightarrow> None
       | Some s \<Rightarrow> run (concat (replicate n [OnError, Tick])) s)"
    by (simp only: replicate_Suc concat.simps run_append)
  with r have split: "run (concat (replicate (Suc n) [OnError, Tick])) st =
      run (concat (replicate n [OnError, Tick])) s1" by simp
  from d show ?case
  proof
    assume a: "awaiting q sp s1"
    have "length q - currentIndex s1 = n" using c1 Suc.prems(2) by simp
    from Suc.IH [OF a this] split show ?thesis by simp
  next
    assume f: "finished q sp s1"
    then have "currentIndex s1 = length q" by (simp add: finished_def)
    with c1 Suc.prems(2) have "n = 0" by simp
    with split f show ?thesis by simp
  qed
qed

text \<open>
  Why the engine must not be paused when the session starts: \<open>cancel\<close> leaves the paused
  flag set, and \<open>speakNext\<close> returns at its second guard. After Play, the start of speech,
  Pause and Play again, the status is "Queued", the playing flag is set, and neither a
  request nor a timer is there to move the session on.
\<close>

lemma paused_engine_example:
  "map_option (\<lambda>s. (statusText s, utterances s, timers s, isPlaying s))
     (run [Play (asc ''a'') 1200, OnStart, Pause, Play (asc ''ab'') 1] init)
   = Some (Queued, [], 0, True)"
  by code_simp

text \<open>
  C1, as stated, fails: a timer left by the session before is not cancelled by
  \<open>playFromStart\<close>, and when it fires in the new session \<open>speakNext\<close> issues the segment
  at the cursor a second time. Here the first session fails on its only segment, which
  leaves a timer pending; Play is pressed again on the text \<open>"ab"\<close> with \<open>maxChars = 1\<close>;
  the old timer fires: two requests are outstanding, both for the segment \<open>"a"\<close>. When
  the engine has failed every request of the new session and every timer has fired, there
  have been three \<open>onerror\<close> callbacks for two segments, the cursor is 3, and the status is
  the error message, not "Done".
\<close>

theorem stale_tick_counterexample:
  "map_option utterances
     (run [Play (asc ''a'') 1200, OnError, Play (asc ''ab'') 1, Tick] init)
   = Some [asc ''a'', asc ''a''] \<and>
   map_option (\<lambda>s. (statusText s, currentIndex s, length (queue s), spoken s))
     (run [Play (asc ''a'') 1200, OnError, Play (asc ''ab'') 1, Tick,
           OnError, Tick, OnError, Tick, OnError, Tick] init)
   = Some (TtsErrorSkippingChunk, 3, 2, [asc ''a'', asc ''a'', asc ''a'', asc ''b''])"
  by code_simp

text \<open>
  C1, amended: take a session started by \<open>playFromStart\<close> in a state with no timer pending
  and the engine not paused, with at least one segment, in which only the engine and the
  timers act and every request ends with \<open>onerror\<close>. Then at every point of the run at most
  one request is outstanding; the requests made so far are an initial part of the
  segments, in order, each once; the number of \<open>onerror\<close> callbacks is the cursor and is at
  most the number of segments; the status is "Done" exactly when nothing is outstanding
  and no timer is pending, and then there have been exactly as many \<open>onerror\<close> callbacks as
  segments and every segment has been requested exactly once; and the run in which each
  request fails and each timer fires does end in "Done".
\<close>

theorem failing_session:
  assumes "timers st = 0" and "\<not> paused st"
    and "playFromStart text m st = Some s0" and "queue s0 \<noteq> []"
    and "set evs \<subseteq> {OnStart, OnError, Tick}" and "run evs s0 = Some s'"
  shows "(\<forall>k s. run (take k evs) s0 = Some s \<longrightarrow> length (utterances s) \<le> 1) \<and>
         (\<exists>k\<le>length (queue s0). spoken s' = spoken st @ take k (queue s0)) \<and>
         count_list evs OnError = currentIndex s' \<and>
         currentIndex s' \<le> length (queue s0) \<and>
         (statusText s' = Done \<longleftrightarrow> utterances s' = [] \<and> timers s' = 0) \<and>
         (statusText s' = Done \<longrightarrow>
            \<not> isPlaying s' \<and> count_list evs OnError = length (queue s0) \<and>
            spoken s' = spoken st @ queue s0) \<and>
         (\<exists>s. run (concat (replicate (length (queue s0)) [OnError, Tick])) s0 = Some s \<and>
              statusText s = Done)"
proof -
  define q where "q = queue s0"
  define sp where "sp = spoken st"
  from awaiting_play [OF assms(1-4)]
  have a0: "awaiting q sp s0" and c0: "currentIndex s0 = 0" by (simp_all add: q_def sp_def)
  then have i0: "session_inv q sp s0" by (simp add: session_inv_def)
  have one: "\<forall>k s. run (take k evs) s0 = Some s \<longrightarrow> length (utterances s) \<le> 1"
  proof (intro allI impI)
    fix k s assume r: "run (take k evs) s0 = Some s"
    have "set (take k evs) \<subseteq> {OnStart, OnError, Tick}"
      using assms(5) set_take_subset [of k evs] by blast
    from session_inv_run [OF i0 r this] show "length (utterances s) \<le> 1"
      by (auto simp: session_inv_def awaiting_def scheduled_def finished_def)
  qed
  from session_inv_run [OF i0 assms(6,5)] c0
  have i: "session_inv q sp s'" and c: "currentIndex s' = count_list evs OnError" by simp_all
  have le: "currentIndex s' \<le> length q"
    using i by (auto simp: session_inv_def awaiting_def scheduled_def finished_def)
  have pre: "\<exists>k\<le>length q. spoken s' = sp @ take k q"
  proof -
    from i consider "awaiting q sp s'" | "scheduled q sp s'" | "finished q sp s'"
      unfolding session_inv_def by blast
    then show ?thesis
    proof cases
      case 1
      then show ?thesis
        by (intro exI [of _ "Suc (currentIndex s')"]) (simp add: awaiting_def)
    next
      case 2
      then show ?thesis
        by (intro exI [of _ "currentIndex s'"]) (simp add: scheduled_def)
    next
      case 3
      then show ?thesis
        by (intro exI [of _ "length q"]) (simp add: finished_def)
    qed
  qed
  have dn: "statusText s' = Done \<longleftrightarrow> utterances s' = [] \<and> timers s' = 0"
    using i by (auto simp: session_inv_def awaiting_def scheduled_def finished_def)
  have fin: "statusText s' = Done \<longrightarrow>
      \<not> isPlaying s' \<and> count_list evs OnError = length q \<and> spoken s' = sp @ q"
    using i c by (auto simp: session_inv_def awaiting_def scheduled_def finished_def)
  from awaiting_completes [OF a0, of "length q"] c0
  have ex: "\<exists>s. run (concat (replicate (length q) [OnError, Tick])) s0 = Some s \<and>
      statusText s = Done"
    by (auto simp: finished_def)
  from one pre c le dn fin ex show ?thesis
    unfolding q_def sp_def by simp
qed

theorem failing_session_witness:
  "timers init = 0 \<and> \<not> paused init \<and>
   playFromStart (asc ''ab'') 1 init =
     Some (init\<lparr>queue := [asc ''a'', asc ''b''], isPlaying := True, statusText := Queued,
                progressText := (0, 2), utterances := [asc ''a''], spoken := [asc ''a'']\<rparr>) \<and>
   run [OnError, Tick, OnError, Tick]
     (init\<lparr>queue := [asc ''a'', asc ''b''], isPlaying := True, statusText := Queued,
            progressText := (0, 2), utterances := [asc ''a''], spoken := [asc ''a'']\<rparr>) =
     Some (init\<lparr>queue := [asc ''a'', asc ''b''], currentIndex := 2, statusText := Done,
                progressText := (2, 2), spoken := [asc ''a'', asc ''b'']\<rparr>) \<and>
   count_list [OnError, Tick, OnError, Tick] OnError = 2"
proof -
  define s0 where "s0 = init\<lparr>queue := [asc ''a'', asc ''b''], isPlaying := True,
    statusText := Queued, progressText := (0, 2), utterances := [asc ''a''],
    spoken := [asc ''a'']\<rparr>"
  define s2 where "s2 = init\<lparr>queue := [asc ''a'', asc ''b''], currentIndex := 2,
    statusText := Done, progressText := (2, 2), spoken := [asc ''a'', asc ''b'']\<rparr>"
  have h1: "timers init = 0" and h2: "\<not> paused init" by (simp_all add: init_def)
  have h3: "playFromStart (asc ''ab'') 1 init = Some s0"
    unfolding s0_def by code_simp
  have h4: "queue s0 \<noteq> []" by (simp add: s0_def)
  have h5: "set [OnError, Tick, OnError, Tick] \<subseteq> {OnStart, OnError, Tick}" by simp
  have h6: "run [OnError, Tick, OnError, Tick] s0 = Some s2"
    unfolding s0_def s2_def by code_simp
  from failing_session [OF h1 h2 h3 h4 h5 h6] h1 h2 h3 h6
  show ?thesis unfolding s0_def s2_def by simp
qed

section \<open>The default voice policy\<close>

lemma set_insert_by: "set (insert_by cmp x ys) = insert x (set ys)"
  by (induction ys) auto

lemma mset_insert_by: "mset (insert_by cmp x ys) = add_mset x (mset ys)"
  by (induction ys) auto

lemma mset_sort_by: "mset (sort_by cmp xs) = mset xs"
  unfolding sort_by_def by (induction xs) (simp_all add: mset_insert_by)

lemma set_sort_by: "set (sort_by cmp xs) = set xs"
  using mset_sort_by [of cmp xs] by (metis set_mset_mset)

lemma sort_by_Nil_iff: "sort_by cmp xs = [] \<longleftrightarrow> xs = []"
  using mset_sort_by [of cmp xs] by (metis mset_zero_iff)

lemma english_first_insert:
  assumes "sorted_wrt (\<lambda>a b. isEn b \<longrightarrow> isEn a) ys"
  shows "sorted_wrt (\<lambda>a b. isEn b \<longrightarrow> isEn a) (insert_by (compareVoices lc) x ys)"
  using assms
proof (induction ys)
  case Nil
  then show ?case by simp
next
  case (Cons y ys)
  show ?case
  proof (cases "compareVoices lc x y \<le> 0")
    case True
    then have xy: "isEn y \<longrightarrow> isEn x"
      by (auto simp: compareVoices_def Let_def split: if_splits)
    with Cons.prems have "\<forall>z\<in>set (y # ys). isEn z \<longrightarrow> isEn x" by auto
    with True Cons.prems show ?thesis by simp
  next
    case False
    then have yx: "isEn x \<longrightarrow> isEn y"
      by (auto simp: compareVoices_def Let_def split: if_splits)
    from Cons.prems have "sorted_wrt (\<lambda>a b. isEn b \<longrightarrow> isEn a) ys"
      and "\<forall>z\<in>set ys. isEn z \<longrightarrow> isEn y" by simp_all
    with Cons.IH yx False show ?thesis by (simp add: set_insert_by)
  qed
qed

lemma english_first_sort:
  "sorted_wrt (\<lambda>a b. isEn b \<longrightarrow> isEn a) (sort_by (compareVoices lc) vs)"
  unfolding sort_by_def by (induction vs) (simp_all add: english_first_insert)

lemma truthy_uri_Some:
  "voiceURI v \<noteq> [] \<Longrightarrow> truthy_uri (Some v) = Some (voiceURI v)"
  by (simp add: truthy_uri_def)

lemma find_in_set: "find P xs = Some v \<Longrightarrow> v \<in> set xs"
  by (auto simp: find_Some_iff)

text \<open>
  C9, as stated, fails: the marker of the script is \<open>/Enhanced|Premium|Google/i\<close>, so a
  name containing "Google" qualifies for (a) although it contains neither "enhanced" nor
  "premium". With the voices "Samantha (Enhanced)" and "Google US English", both
  \<open>en-US\<close>, the sorted list starts with the Google voice and the script selects it; the
  policy as the specification words it selects Samantha, the only entry with an
  enhanced or premium marker.
\<close>

theorem voice_policy_spec_counterexample:
  "selectedVoiceURI (loadVoices codeunit_compare [samantha, google_us]) = Some (asc ''urn:google-us'') \<and>
   map_option voiceURI
     (voice_policy spec_marker (sort_by (compareVoices codeunit_compare) [samantha, google_us]))
   = Some (asc ''urn:samantha'')"
  by code_simp

text \<open>
  C9, amended: when every voice has a non-empty URI, the selector lists the voices sorted
  by the comparator (a rearrangement of the list in which no entry that is not English
  comes before an English one), and the selected voice is, on that sorted list: (a) the
  first entry whose tag starts with \<open>en-US\<close> and whose name contains "Enhanced", "Premium"
  or "Google" up to case; otherwise (b) the first entry whose tag starts with \<open>en-US\<close>;
  otherwise (c) the first entry whose lowered tag starts with \<open>en\<close>; otherwise (d) the
  first entry. Nothing is selected exactly when the list is empty.
\<close>

theorem loadVoices_policy:
  assumes "\<forall>v\<in>set vs. voiceURI v \<noteq> []"
  shows "voiceSelect (loadVoices lc vs) = sort_by (compareVoices lc) vs \<and>
         mset (voiceSelect (loadVoices lc vs)) = mset vs \<and>
         sorted_wrt (\<lambda>a b. isEn b \<longrightarrow> isEn a) (voiceSelect (loadVoices lc vs)) \<and>
         selectedVoiceURI (loadVoices lc vs) =
           map_option voiceURI (voice_policy marker (voiceSelect (loadVoices lc vs))) \<and>
         (selectedVoiceURI (loadVoices lc vs) = None \<longleftrightarrow> vs = [])"
proof -
  define sorted' where "sorted' = sort_by (compareVoices lc) vs"
  have vsel: "voiceSelect (loadVoices lc vs) = sorted'"
    by (simp add: loadVoices_def Let_def sorted'_def)
  have uri: "\<And>v. v \<in> set sorted' \<Longrightarrow> truthy_uri (Some v) = Some (voiceURI v)"
    using assms by (simp add: sorted'_def set_sort_by truthy_uri_Some)
  have hd: "\<And>v vs'. sorted' = v # vs' \<Longrightarrow> truthy_uri (Some v) = Some (voiceURI v)"
    using uri by simp
  have sel: "selectedVoiceURI (loadVoices lc vs) = map_option voiceURI (voice_policy marker sorted')"
    unfolding loadVoices_def Let_def voice_policy_def sorted'_def [symmetric]
    by (auto simp: uri hd truthy_uri_def [of None] dest: find_in_set
        split: option.splits list.splits)
  have none: "map_option voiceURI (voice_policy marker sorted') = None \<longleftrightarrow> sorted' = []"
    by (auto simp: voice_policy_def split: option.splits list.splits)
  show ?thesis
    unfolding vsel sel none
    by (simp add: sorted'_def mset_sort_by english_first_sort sort_by_Nil_iff)
qed

theorem loadVoices_policy_witness:
  "voiceURI samantha \<noteq> [] \<and> voiceURI google_us \<noteq> [] \<and>
   selectedVoiceURI (loadVoices codeunit_compare [samantha, google_us]) =
     map_option voiceURI
       (voice_policy marker (sort_by (compareVoices codeunit_compare) [samantha, google_us])) \<and>
   voice_policy marker (sort_by (compareVoices codeunit_compare) [samantha, google_us]) =
     Some google_us"
proof -
  have h: "\<forall>v\<in>set [samantha, google_us]. voiceURI v \<noteq> []"
    by (simp add: samantha_def google_us_def asc_def)
  have p: "voice_policy marker (sort_by (compareVoices codeunit_compare) [samantha, google_us]) =
     Some google_us" by code_simp
  from loadVoices_policy [OF h, of codeunit_compare] h p show ?thesis by simp
qed

end
